theory Spec2Isabelle
  imports Main "HOL-Library.Word"
begin

section \<open>The retry policy object\<close>

text \<open>
  The class \<^verbatim>\<open>expbr::Exponential_backoff_retry\<close> of \<^verbatim>\<open>exp_backoff_retry.h\<close> has three
  private fields: \<^verbatim>\<open>unsigned int _maxRetries\<close>, \<^verbatim>\<open>milliseconds _baseDelay\<close> and
  \<^verbatim>\<open>double _backoffFactor\<close>. The tick count of \<^verbatim>\<open>std::chrono::milliseconds\<close> is a signed
  64-bit integer, kept as its bit pattern; the \<^verbatim>\<open>double\<close> is kept as its IEEE-754 binary64 bit
  pattern. The model stores both and performs no arithmetic on them: the floating-point
  expression of \<^verbatim>\<open>getDelay\<close> is not evaluated, a sleep is recorded with the counter value
  that \<^verbatim>\<open>getDelay\<close> is called with. \<^verbatim>\<open>unsigned int\<close> is 32 bits wide.
\<close>

type_synonym milliseconds = "64 word"
type_synonym double = "64 word"

record Exponential_backoff_retry =
  maxRetries :: "32 word"
  baseDelay :: milliseconds
  backoffFactor :: double

text \<open>The constructor copies its three parameters into the fields and does nothing else.\<close>

definition C_Tor :: "32 word \<Rightarrow> milliseconds \<Rightarrow> double \<Rightarrow> Exponential_backoff_retry" where
  "C_Tor max_retries base_delay backoff_factor =
     \<lparr>maxRetries = max_retries, baseDelay = base_delay, backoffFactor = backoff_factor\<rparr>"

section \<open>The callable and the work thread\<close>

text \<open>
  The callable \<^verbatim>\<open>func\<close> is opaque C++ code. It is handed the lambda's own copy of the argument
  pack through \<^verbatim>\<open>std::forward<Args>(args)...\<close>, that is by reference to that copy, so it may
  leave the copy changed (a parameter of type \<^verbatim>\<open>int&\<close> written to, a \<^verbatim>\<open>std::string\<close>
  moved from); it may also read and change state of its own or of the outside world. A callable
  is therefore a function from the argument copy \<open>'a\<close> and that other state \<open>'s\<close> to its result
  \<open>'r\<close>, the argument copy it leaves behind and the new state. It is a total function: the
  callables modelled here return and do not throw.
\<close>

type_synonym ('a, 's, 'r) callable = "'a \<Rightarrow> 's \<Rightarrow> 'r \<times> 'a \<times> 's"

text \<open>
  What the work thread does that can be observed from outside: an invocation of the callable
  (with the arguments it received and the result it gave), a call
  \<^verbatim>\<open>std::this_thread::sleep_for(getDelay(retryCount))\<close> (with the counter value passed to
  \<^verbatim>\<open>getDelay\<close>), and a call \<^verbatim>\<open>promiseRes.set_value(result)\<close>.
\<close>

datatype ('a, 'r) event =
    Invoke 'a 'r
  | Sleep_for_getDelay "32 word"
  | Set_value 'r

text \<open>
  The memory the lambda of \<^verbatim>\<open>operator()\<close> works on: the executor reached through the captured
  \<^verbatim>\<open>this\<close>, the captured copy of the arguments, the state the callable acts on, the local
  counter \<^verbatim>\<open>retryCount\<close>, and the shared state of the promise (\<open>None\<close> while no value has
  been set). \<^verbatim>\<open>set_value\<close> on a promise that already holds a value throws
  \<^verbatim>\<open>std::future_error\<close>; the flag \<open>future_error\<close> records that.
\<close>

record ('a, 's, 'r) work_thread =
  this :: Exponential_backoff_retry
  args :: 'a
  env :: 's
  retryCount :: "32 word"
  promiseRes :: "'r option"
  future_error :: bool
  events :: "('a, 'r) event list"

text \<open>Line 59: \<^verbatim>\<open>result = func(std::forward<Args>(args)...)\<close>.\<close>

definition invoke ::
  "('a, 's, 'r) callable \<Rightarrow> ('a, 's, 'r) work_thread \<Rightarrow> 'r \<times> ('a, 's, 'r) work_thread" where
  "invoke func w =
     (case func (args w) (env w) of
        (r, a', e') \<Rightarrow>
          (r, w\<lparr>args := a', env := e', events := events w @ [Invoke (args w) r]\<rparr>))"

text \<open>Line 62: \<^verbatim>\<open>std::this_thread::sleep_for(getDelay(retryCount))\<close>.\<close>

definition sleep_for_getDelay :: "('a, 's, 'r) work_thread \<Rightarrow> ('a, 's, 'r) work_thread" where
  "sleep_for_getDelay w = w\<lparr>events := events w @ [Sleep_for_getDelay (retryCount w)]\<rparr>"

text \<open>Line 63: \<^verbatim>\<open>++retryCount\<close> on an \<^verbatim>\<open>unsigned int\<close>, which wraps at \<open>2 ^ 32\<close>.\<close>

definition increment :: "('a, 's, 'r) work_thread \<Rightarrow> ('a, 's, 'r) work_thread" where
  "increment w = w\<lparr>retryCount := retryCount w + 1\<rparr>"

text \<open>Lines 66 and 73: \<^verbatim>\<open>promiseRes.set_value(result)\<close>.\<close>

definition set_value :: "'r \<Rightarrow> ('a, 's, 'r) work_thread \<Rightarrow> ('a, 's, 'r) work_thread" where
  "set_value r w =
     (if promiseRes w = None
      then w\<lparr>promiseRes := Some r, events := events w @ [Set_value r]\<rparr>
      else w\<lparr>future_error := True, events := events w @ [Set_value r]\<rparr>)"

text \<open>
  Lines 58 to 73: the \<^verbatim>\<open>do { ... } while (retryCount < this->_maxRetries)\<close> loop, together
  with the \<^verbatim>\<open>set_value\<close> that ends the lambda on either path (line 66 followed by
  \<^verbatim>\<open>return\<close> when the result is the target, line 73 after the loop otherwise).
\<close>

function (domintros) retry_loop ::
  "'r \<Rightarrow> ('a, 's, 'r) callable \<Rightarrow> ('a, 's, 'r) work_thread \<Rightarrow> ('a, 's, 'r) work_thread" where
  "retry_loop t func w =
     (case invoke func w of
        (result, w1) \<Rightarrow>
          if result \<noteq> t then
            (let w2 = sleep_for_getDelay w1;
                 w3 = increment w2
             in if retryCount w3 < maxRetries (this w3)
                then retry_loop t func w3
                else set_value result w3)
          else set_value result w1)"
  by pat_completeness auto

text \<open>
  Lines 54 to 74: the body of the lambda that \<^verbatim>\<open>work_thread\<close> runs. It starts the counter at
  0 and runs the loop.
\<close>

definition work_thread_body ::
  "'r \<Rightarrow> ('a, 's, 'r) callable \<Rightarrow> ('a, 's, 'r) work_thread \<Rightarrow> ('a, 's, 'r) work_thread" where
  "work_thread_body t func w = retry_loop t func (w\<lparr>retryCount := 0\<rparr>)"

section \<open>The call operator\<close>

text \<open>
  Lines 43 to 78: \<^verbatim>\<open>operator()\<close>, which the specification calls \<^verbatim>\<open>execute\<close>. It creates the
  promise and its future, constructs \<^verbatim>\<open>work_thread\<close> on the lambda (which captures
  \<^verbatim>\<open>this\<close>, and copies of \<^verbatim>\<open>t\<close>, \<^verbatim>\<open>func\<close> and \<^verbatim>\<open>args...\<close>), calls
  \<^verbatim>\<open>work_thread.join()\<close> and returns the future. \<^verbatim>\<open>join\<close> returns once the thread's
  function has returned, and the caller does nothing between starting the thread and joining
  it, so the call is one sequence of steps: the start of the thread, the steps of the work
  thread, the return of \<^verbatim>\<open>join\<close>, and the return of the future to the caller. Each step
  carries the thread that performs it.
\<close>

datatype thread = Caller | Work_thread

datatype ('a, 'r) step =
    Thread_start
  | Work "('a, 'r) event"
  | Join
  | Return_futureRes

text \<open>
  What a call leaves behind: the executor object, the shared state that the returned future
  reads, whether a \<^verbatim>\<open>std::future_error\<close> was raised, the state the callable acts on, and
  the steps in the order in which they happened.
\<close>

record ('a, 's, 'r) returned =
  executor :: Exponential_backoff_retry
  futureRes :: "'r option"
  raised :: bool
  world :: 's
  steps :: "(thread \<times> ('a, 'r) step) list"

text \<open>
  The memory of the lambda when the thread starts: the captures, a promise without a value,
  and no event yet.
\<close>

definition captured ::
  "Exponential_backoff_retry \<Rightarrow> 'a \<Rightarrow> 's \<Rightarrow> ('a, 's, 'r) work_thread" where
  "captured ex a e =
     \<lparr>this = ex, args = a, env = e, retryCount = 0, promiseRes = None,
      future_error = False, events = []\<rparr>"

definition execute ::
  "Exponential_backoff_retry \<Rightarrow> 'r \<Rightarrow> ('a, 's, 'r) callable \<Rightarrow> 'a \<Rightarrow> 's
   \<Rightarrow> ('a, 's, 'r) returned" where
  "execute ex t func a e =
     (let w = work_thread_body t func (captured ex a e)
      in \<lparr>executor = this w, futureRes = promiseRes w, raised = future_error w, world = env w,
          steps = (Caller, Thread_start) # map (\<lambda>ev. (Work_thread, Work ev)) (events w)
                  @ [(Caller, Join), (Caller, Return_futureRes)]\<rparr>)"

section \<open>Reading a sequence of events\<close>

text \<open>The invocations of the callable, each with the arguments it received and its result.\<close>

fun invocations :: "('a, 'r) event list \<Rightarrow> ('a \<times> 'r) list" where
  "invocations [] = []"
| "invocations (Invoke a r # evs) = (a, r) # invocations evs"
| "invocations (Sleep_for_getDelay c # evs) = invocations evs"
| "invocations (Set_value v # evs) = invocations evs"

text \<open>The counter values passed to \<^verbatim>\<open>getDelay\<close>, one for each sleep.\<close>

fun sleeps :: "('a, 'r) event list \<Rightarrow> 32 word list" where
  "sleeps [] = []"
| "sleeps (Invoke a r # evs) = sleeps evs"
| "sleeps (Sleep_for_getDelay c # evs) = c # sleeps evs"
| "sleeps (Set_value v # evs) = sleeps evs"

text \<open>The values given to \<^verbatim>\<open>set_value\<close>.\<close>

fun set_values :: "('a, 'r) event list \<Rightarrow> 'r list" where
  "set_values [] = []"
| "set_values (Invoke a r # evs) = set_values evs"
| "set_values (Sleep_for_getDelay c # evs) = set_values evs"
| "set_values (Set_value v # evs) = v # set_values evs"

text \<open>The events of the work thread among the steps of a call.\<close>

fun work_events :: "(thread \<times> ('a, 'r) step) list \<Rightarrow> ('a, 'r) event list" where
  "work_events [] = []"
| "work_events ((th, Work ev) # xs) = ev # work_events xs"
| "work_events (_ # xs) = work_events xs"

text \<open>The invocations performed in a call, in order.\<close>

definition performed :: "('a, 's, 'r) returned \<Rightarrow> ('a \<times> 'r) list" where
  "performed ret = invocations (work_events (steps ret))"

section \<open>The results of successive invocations\<close>

text \<open>
  The result the callable gives on invocation \<open>n + 1\<close> when it is invoked again and again,
  starting with the argument copy \<open>a\<close> and the outside state \<open>e\<close>, each invocation
  continuing with what the one before left behind.
\<close>

fun nth_result :: "('a, 's, 'r) callable \<Rightarrow> 'a \<Rightarrow> 's \<Rightarrow> nat \<Rightarrow> 'r" where
  "nth_result func a e 0 = fst (func a e)"
| "nth_result func a e (Suc n) = (case func a e of (r, a', e') \<Rightarrow> nth_result func a' e' n)"

section \<open>The events of a run\<close>

text \<open>
  The sequences of events that the loop can produce when it is entered with counter \<open>c\<close>,
  argument copy \<open>a\<close> and outside state \<open>e\<close>, together with the counter it ends with: a pass
  whose result is the target ends the run with \<^verbatim>\<open>set_value\<close>; a pass whose result is not the
  target sleeps, increments the counter and then either goes round again or ends the run
  with \<^verbatim>\<open>set_value\<close>.
\<close>

inductive run ::
  "'r \<Rightarrow> 32 word \<Rightarrow> ('a, 's, 'r) callable \<Rightarrow> 32 word \<Rightarrow> 'a \<Rightarrow> 's \<Rightarrow> ('a, 'r) event list
   \<Rightarrow> 32 word \<Rightarrow> bool"
  for t :: 'r and m :: "32 word" and func :: "('a, 's, 'r) callable" where
    matched: "func a e = (t, a', e') \<Longrightarrow> run t m func c a e [Invoke a t, Set_value t] c"
  | gave_up: "func a e = (r, a', e') \<Longrightarrow> r \<noteq> t \<Longrightarrow> \<not> c + 1 < m \<Longrightarrow>
       run t m func c a e [Invoke a r, Sleep_for_getDelay c, Set_value r] (c + 1)"
  | retried: "func a e = (r, a', e') \<Longrightarrow> r \<noteq> t \<Longrightarrow> c + 1 < m \<Longrightarrow>
       run t m func (c + 1) a' e' evs c' \<Longrightarrow>
       run t m func c a e (Invoke a r # Sleep_for_getDelay c # evs) c'"

section \<open>Several calls at once\<close>

text \<open>
  The body of the lambda once more, one statement at a time, for calls whose work threads
  run at the same time. A program point says which statement comes next and carries the
  local \<^verbatim>\<open>result\<close> once it has been assigned.
\<close>

datatype 'r pc =
    At_start
  | At_call
  | At_sleep 'r
  | At_increment 'r
  | At_test 'r
  | At_set_value 'r
  | Returned

definition small_step ::
  "'r \<Rightarrow> ('a, 's, 'r) callable \<Rightarrow> 'r pc \<times> ('a, 's, 'r) work_thread
   \<Rightarrow> 'r pc \<times> ('a, 's, 'r) work_thread" where
  "small_step t func = (\<lambda>(pc, w).
     case pc of
       At_start \<Rightarrow> (At_call, w\<lparr>retryCount := 0\<rparr>)
     | At_call \<Rightarrow>
         (case invoke func w of
            (result, w1) \<Rightarrow>
              if result \<noteq> t then (At_sleep result, w1) else (At_set_value result, w1))
     | At_sleep result \<Rightarrow> (At_increment result, sleep_for_getDelay w)
     | At_increment result \<Rightarrow> (At_test result, increment w)
     | At_test result \<Rightarrow>
         if retryCount w < maxRetries (this w) then (At_call, w) else (At_set_value result, w)
     | At_set_value result \<Rightarrow> (Returned, set_value result w)
     | Returned \<Rightarrow> (Returned, w))"

text \<open>
  A call in progress has its target, its callable, its program point and the memory of its
  lambda. The calls on one executor share the executor object, and they share the outside
  state their callables act on. A step of call \<open>i\<close> reads the shared executor and outside
  state, performs the next statement of that call, and writes back what the statement left.
  A schedule is the order in which the calls take their steps.
\<close>

record ('a, 's, 'r) call =
  target :: 'r
  callee :: "('a, 's, 'r) callable"
  at :: "'r pc"
  local :: "('a, 's, 'r) work_thread"

record 's shared =
  object :: Exponential_backoff_retry
  outside :: 's

definition pool_step ::
  "nat \<Rightarrow> 's shared \<times> ('a, 's, 'r) call list \<Rightarrow> 's shared \<times> ('a, 's, 'r) call list" where
  "pool_step i = (\<lambda>(sh, calls).
     if i < length calls then
       (let c = calls ! i;
            (pc', w') = small_step (target c) (callee c)
                          (at c, (local c)\<lparr>this := object sh, env := outside sh\<rparr>)
        in (\<lparr>object = this w', outside = env w'\<rparr>, calls[i := c\<lparr>at := pc', local := w'\<rparr>]))
     else (sh, calls))"

definition interleave ::
  "nat list \<Rightarrow> 's shared \<times> ('a, 's, 'r) call list \<Rightarrow> 's shared \<times> ('a, 's, 'r) call list" where
  "interleave sched = fold pool_step sched"

section \<open>Sample callables\<close>

text \<open>A callable that returns the same value on every invocation and changes nothing.\<close>

definition always :: "'r \<Rightarrow> ('a, 's, 'r) callable" where
  "always r a e = (r, a, e)"

text \<open>
  A callable that returns the elements of a list on successive invocations (and \<open>d\<close> once
  the list is used up), counting its invocations in its own state.
\<close>

definition scripted :: "'r list \<Rightarrow> 'r \<Rightarrow> ('a, nat, 'r) callable" where
  "scripted rs d a n = ((if n < length rs then rs ! n else d), a, Suc n)"


text \<open>The bit pattern of the \<^verbatim>\<open>double\<close> 2.0, for the sample policies.\<close>

definition two :: double where
  "two = 0x4000000000000000"

section \<open>The measure of the loop\<close>

text \<open>
  The loop ends for every callable and every starting state. The counter is below
  \<^verbatim>\<open>_maxRetries\<close> whenever the loop goes round again, so the distance to \<^verbatim>\<open>_maxRetries\<close>
  shrinks; only the first pass can start from a counter that is not below it.
\<close>

definition budget :: "('a, 's, 'r) work_thread \<Rightarrow> nat" where
  "budget w =
     (if retryCount w < maxRetries (this w)
      then unat (maxRetries (this w)) - unat (retryCount w)
      else 2 ^ 32)"

section \<open>Termination of the loop\<close>

lemma invoke_frame:
  "invoke func w = (r, w1) \<Longrightarrow>
     this w1 = this w \<and> retryCount w1 = retryCount w \<and> promiseRes w1 = promiseRes w
     \<and> future_error w1 = future_error w"
  by (auto simp: invoke_def split: prod.splits)

lemma sleep_for_getDelay_frame:
  "this (sleep_for_getDelay w) = this w \<and> retryCount (sleep_for_getDelay w) = retryCount w
   \<and> promiseRes (sleep_for_getDelay w) = promiseRes w
   \<and> future_error (sleep_for_getDelay w) = future_error w
   \<and> args (sleep_for_getDelay w) = args w \<and> env (sleep_for_getDelay w) = env w"
  by (simp add: sleep_for_getDelay_def)

lemma increment_frame:
  "this (increment w) = this w \<and> retryCount (increment w) = retryCount w + 1
   \<and> promiseRes (increment w) = promiseRes w \<and> future_error (increment w) = future_error w
   \<and> args (increment w) = args w \<and> env (increment w) = env w
   \<and> events (increment w) = events w"
  by (simp add: increment_def)

lemma unat_inc_below: "unat (c + 1) = Suc (unat c)" if "c < m" for c m :: "32 word"
proof -
  from that have "c + 1 \<noteq> 0"
    by (metis max_word_wrap word_n1_ge leD)
  then show ?thesis by (simp add: unatSuc add.commute)
qed

lemma word_budget:
  fixes c m :: "32 word"
  assumes "c + 1 < m"
  shows "unat m - unat (c + 1) < (if c < m then unat m - unat c else 2 ^ 32)"
proof (cases "c < m")
  case True
  then have "unat (c + 1) = Suc (unat c)" by (rule unat_inc_below)
  moreover from assms have "unat (c + 1) < unat m" by (simp add: word_less_nat_alt)
  ultimately show ?thesis using True by simp
next
  case False
  have "unat m < 2 ^ 32" using unsigned_less [of m] by simp
  then show ?thesis using False by simp
qed

lemma budget_step:
  assumes "invoke func w = (r, w1)"
    and "retryCount (increment (sleep_for_getDelay w1))
         < maxRetries (this (increment (sleep_for_getDelay w1)))"
  shows "budget (increment (sleep_for_getDelay w1)) < budget w"
proof -
  have f: "this (increment (sleep_for_getDelay w1)) = this w"
    "retryCount (increment (sleep_for_getDelay w1)) = retryCount w + 1"
    using invoke_frame [OF assms(1)] by (simp_all add: sleep_for_getDelay_frame increment_frame)
  from assms(2) have again: "retryCount w + 1 < maxRetries (this w)" by (simp add: f)
  from word_budget [OF again] again show ?thesis
    by (simp add: budget_def f)
qed

termination retry_loop
proof (relation "measure (\<lambda>(t, func, w). budget w)", goal_cases)
  case 1
  show ?case by simp
next
  case (2 t func w x y xa xb)
  from 2(1) have "invoke func w = (x, y)" by simp
  from budget_step [OF this] 2(3,4,5) show ?case by simp
qed

declare retry_loop.simps [simp del]

section \<open>One pass of the loop\<close>

lemma set_value_frame:
  "this (set_value r w) = this w \<and> retryCount (set_value r w) = retryCount w
   \<and> args (set_value r w) = args w \<and> env (set_value r w) = env w
   \<and> events (set_value r w) = events w @ [Set_value r]"
  by (simp add: set_value_def)

lemma retry_loop_match:
  assumes "invoke func w = (t, w1)"
  shows "retry_loop t func w = set_value t w1"
  using assms by (subst retry_loop.simps) simp

lemma retry_loop_again:
  assumes "invoke func w = (r, w1)" and "r \<noteq> t"
    and "retryCount w + 1 < maxRetries (this w)"
  shows "retry_loop t func w = retry_loop t func (increment (sleep_for_getDelay w1))"
  using assms invoke_frame [OF assms(1)]
  by (subst retry_loop.simps) (simp add: Let_def sleep_for_getDelay_frame increment_frame)

lemma retry_loop_give_up:
  assumes "invoke func w = (r, w1)" and "r \<noteq> t"
    and "\<not> retryCount w + 1 < maxRetries (this w)"
  shows "retry_loop t func w = set_value r (increment (sleep_for_getDelay w1))"
  using assms invoke_frame [OF assms(1)]
  by (subst retry_loop.simps) (simp add: Let_def sleep_for_getDelay_frame increment_frame)

lemma retry_loop_induct [case_names pass]:
  assumes "\<And>w. (\<And>r w1. invoke func w = (r, w1) \<Longrightarrow> r \<noteq> t
                      \<Longrightarrow> retryCount w + 1 < maxRetries (this w)
                      \<Longrightarrow> P (increment (sleep_for_getDelay w1))) \<Longrightarrow> P w"
  shows "P w"
  using assms
proof (induction t func w rule: retry_loop.induct)
  case (1 t func w)
  show ?case
  proof (rule "1.prems")
    fix r w1
    assume inv: "invoke func w = (r, w1)" and ne: "r \<noteq> t"
      and again: "retryCount w + 1 < maxRetries (this w)"
    from invoke_frame [OF inv] again
    have "retryCount (increment (sleep_for_getDelay w1))
            < maxRetries (this (increment (sleep_for_getDelay w1)))"
      by (simp add: sleep_for_getDelay_frame increment_frame)
    then show "P (increment (sleep_for_getDelay w1))"
      by (rule "1.IH" [OF inv [symmetric] ne refl refl _ "1.prems"])
  qed
qed

lemma retry_loop_this: "this (retry_loop t func w) = this w"
proof (induction w rule: retry_loop_induct [where func = func and t = t])
  case (pass w)
  obtain r w1 where inv: "invoke func w = (r, w1)" by (cases "invoke func w")
  note fr = invoke_frame [OF inv]
  consider (match) "r = t" | (again) "r \<noteq> t" "retryCount w + 1 < maxRetries (this w)"
    | (give_up) "r \<noteq> t" "\<not> retryCount w + 1 < maxRetries (this w)" by blast
  then show ?case
  proof cases
    case match
    with inv show ?thesis by (simp add: retry_loop_match set_value_frame fr)
  next
    case again
    with inv pass.IH [OF inv again] show ?thesis
      by (simp add: retry_loop_again fr sleep_for_getDelay_frame increment_frame)
  next
    case give_up
    with inv show ?thesis
      by (simp add: retry_loop_give_up set_value_frame fr sleep_for_getDelay_frame increment_frame)
  qed
qed

section \<open>The loop produces a run\<close>

lemma invoke_effect:
  assumes "invoke func w = (r, w1)"
  shows "func (args w) (env w) = (r, args w1, env w1)"
    and "events w1 = events w @ [Invoke (args w) r]"
  using assms by (auto simp: invoke_def split: prod.splits)

lemma retry_loop_run:
  "\<exists>evs. events (retry_loop t func w) = events w @ evs
     \<and> run t (maxRetries (this w)) func (retryCount w) (args w) (env w) evs
           (retryCount (retry_loop t func w))"
proof (induction w rule: retry_loop_induct [where func = func and t = t])
  case (pass w)
  obtain r w1 where inv: "invoke func w = (r, w1)" by (cases "invoke func w")
  note fr = invoke_frame [OF inv] and ef = invoke_effect [OF inv]
  let ?w3 = "increment (sleep_for_getDelay w1)"
  have w3: "this ?w3 = this w" "retryCount ?w3 = retryCount w + 1" "args ?w3 = args w1"
    "env ?w3 = env w1"
    "events ?w3 = events w @ [Invoke (args w) r, Sleep_for_getDelay (retryCount w)]"
    by (simp_all add: increment_frame sleep_for_getDelay_frame fr ef sleep_for_getDelay_def
        increment_def)
  consider (match) "r = t" | (again) "r \<noteq> t" "retryCount w + 1 < maxRetries (this w)"
    | (give_up) "r \<noteq> t" "\<not> retryCount w + 1 < maxRetries (this w)" by blast
  then show ?case
  proof cases
    case match
    with inv have "retry_loop t func w = set_value t w1" by (simp add: retry_loop_match)
    moreover have "run t (maxRetries (this w)) func (retryCount w) (args w) (env w)
        [Invoke (args w) t, Set_value t] (retryCount w)"
      using ef(1) match by (auto intro: run.matched)
    ultimately show ?thesis by (simp add: set_value_frame fr ef match)
  next
    case again
    from pass.IH [OF inv again] obtain evs where
      evs: "events (retry_loop t func ?w3) = events ?w3 @ evs"
        "run t (maxRetries (this w)) func (retryCount w + 1) (args w1) (env w1) evs
           (retryCount (retry_loop t func ?w3))"
      by (auto simp: w3)
    have eq: "retry_loop t func w = retry_loop t func ?w3"
      using inv again by (rule retry_loop_again)
    have "run t (maxRetries (this w)) func (retryCount w) (args w) (env w)
        (Invoke (args w) r # Sleep_for_getDelay (retryCount w) # evs)
        (retryCount (retry_loop t func w))"
      unfolding eq using ef(1) again evs(2) by (rule run.retried)
    then show ?thesis using evs(1) by (simp add: eq w3)
  next
    case give_up
    have eq: "retry_loop t func w = set_value r ?w3"
      using inv give_up by (rule retry_loop_give_up)
    have "run t (maxRetries (this w)) func (retryCount w) (args w) (env w)
        [Invoke (args w) r, Sleep_for_getDelay (retryCount w), Set_value r] (retryCount w + 1)"
      using ef(1) give_up by (rule run.gave_up)
    then show ?thesis by (simp add: eq set_value_frame w3)
  qed
qed

lemma retry_loop_promise:
  assumes "promiseRes w = None"
  shows "\<exists>v. promiseRes (retry_loop t func w) = Some v
           \<and> last (events (retry_loop t func w)) = Set_value v
           \<and> future_error (retry_loop t func w) = future_error w"
  using assms
proof (induction w rule: retry_loop_induct [where func = func and t = t])
  case (pass w)
  obtain r w1 where inv: "invoke func w = (r, w1)" by (cases "invoke func w")
  note fr = invoke_frame [OF inv]
  let ?w3 = "increment (sleep_for_getDelay w1)"
  have w3: "promiseRes ?w3 = None" "future_error ?w3 = future_error w"
    using pass.prems by (simp_all add: increment_frame sleep_for_getDelay_frame fr)
  consider (match) "r = t" | (again) "r \<noteq> t" "retryCount w + 1 < maxRetries (this w)"
    | (give_up) "r \<noteq> t" "\<not> retryCount w + 1 < maxRetries (this w)" by blast
  then show ?case
  proof cases
    case match
    with inv have "retry_loop t func w = set_value t w1" by (simp add: retry_loop_match)
    then show ?thesis using pass.prems by (simp add: set_value_def fr)
  next
    case again
    have eq: "retry_loop t func w = retry_loop t func ?w3"
      using inv again by (rule retry_loop_again)
    from pass.IH [OF inv again w3(1)] show ?thesis by (simp add: eq w3)
  next
    case give_up
    have eq: "retry_loop t func w = set_value r ?w3"
      using inv give_up by (rule retry_loop_give_up)
    show ?thesis by (simp add: eq set_value_def w3)
  qed
qed

section \<open>What a run's events look like\<close>

lemma run_invocations_first:
  assumes "run t m func c a e evs c'"
  shows "\<exists>r rest. invocations evs = (a, r) # rest"
  using assms by (induction rule: run.induct) auto

lemma run_last_event:
  assumes "run t m func c a e evs c'"
  shows "set_values evs = [snd (last (invocations evs))]
         \<and> last evs = Set_value (snd (last (invocations evs)))"
  using assms
proof (induction rule: run.induct)
  case (retried a e r a' e' c evs c')
  from run_invocations_first [OF retried(4)] have "invocations evs \<noteq> []" by auto
  moreover from retried.IH have "evs \<noteq> []" by auto
  ultimately show ?case using retried.IH by simp
qed simp_all

lemma run_bound:
  assumes "run t m func c a e evs c'" and "c < m \<or> \<not> c + 1 < m"
  shows "length (invocations evs) \<le> max 1 (unat m - unat c)"
  using assms
proof (induction rule: run.induct)
  case (retried a e r a' e' c evs c')
  from retried(3,6) have lt: "c < m" by blast
  then have "unat (c + 1) = Suc (unat c)" by (rule unat_inc_below)
  moreover from retried(3) have "unat (c + 1) < unat m" by (simp add: word_less_nat_alt)
  moreover from retried.IH retried(3)
  have "length (invocations evs) \<le> max 1 (unat m - unat (c + 1))" by simp
  ultimately show ?case by simp
qed simp_all

lemma run_never_matching:
  assumes "run t m func c a e evs c'" and "c < m \<or> \<not> c + 1 < m"
    and "\<forall>x \<in> set (invocations evs). snd x \<noteq> t"
  shows "length (invocations evs) = max 1 (unat m - unat c)"
  using assms
proof (induction rule: run.induct)
  case (matched a e a' e' c)
  then show ?case by simp
next
  case (gave_up a e r a' e' c)
  have "unat m - unat c \<le> 1"
  proof (cases "c < m")
    case True
    then have "unat (c + 1) = Suc (unat c)" by (rule unat_inc_below)
    with gave_up(3) show ?thesis by (simp add: word_less_nat_alt)
  next
    case False
    then show ?thesis by (simp add: word_less_nat_alt)
  qed
  then show ?case by simp
next
  case (retried a e r a' e' c evs c')
  from retried(3,6) have lt: "c < m" by blast
  then have "unat (c + 1) = Suc (unat c)" by (rule unat_inc_below)
  moreover from retried(3) have "unat (c + 1) < unat m" by (simp add: word_less_nat_alt)
  moreover from retried.IH retried(3) retried.prems
  have "length (invocations evs) = max 1 (unat m - unat (c + 1))" by simp
  ultimately show ?case by simp
qed

lemma run_counter:
  assumes "run t m func c a e evs c'" and "c < m \<or> \<not> c + 1 < m" and "c \<noteq> - 1"
  shows "unat c' = unat c + length (filter (\<lambda>x. snd x \<noteq> t) (invocations evs))
         \<and> sleeps evs = map (\<lambda>i. c + of_nat i) [0 ..< unat c' - unat c]"
  using assms
proof (induction rule: run.induct)
  case (matched a e a' e' c)
  then show ?case by simp
next
  case (gave_up a e r a' e' c)
  from gave_up(5) have "1 + c \<noteq> 0" by (metis max_word_wrap add.commute)
  then have "unat (c + 1) = Suc (unat c)" by (simp add: unatSuc add.commute)
  with gave_up show ?case by simp
next
  case (retried a e r a' e' c evs c')
  from retried(3,6) have lt: "c < m" by blast
  then have suc: "unat (c + 1) = Suc (unat c)" by (rule unat_inc_below)
  from retried(3) have ne: "c + 1 \<noteq> - 1"
    by (metis word_n1_ge leD)
  from retried.IH retried(3) ne
  have ih: "unat c' = unat (c + 1) + length (filter (\<lambda>x. snd x \<noteq> t) (invocations evs))"
    "sleeps evs = map (\<lambda>i. c + 1 + of_nat i) [0 ..< unat c' - unat (c + 1)]"
    by simp_all
  from ih(1) suc obtain k where k: "unat c' - unat c = Suc k" "unat c' - unat (c + 1) = k"
    by simp
  have "map (\<lambda>i. c + of_nat i) [0 ..< Suc k] = c # map (\<lambda>i. c + 1 + of_nat i) [0 ..< k]"
    by (simp add: upt_rec [of 0 "Suc k"] map_Suc_upt [symmetric] add.assoc del: upt_Suc)
  with ih k suc retried(2) show ?case by simp
qed

lemma run_stop:
  assumes "run t m func c a e evs c'"
  shows "snd (last (invocations evs)) = t \<or> \<not> c' < m"
  using assms
proof (induction rule: run.induct)
  case (retried a e r a' e' c evs c')
  from run_invocations_first [OF retried(4)] have "invocations evs \<noteq> []" by auto
  with retried.IH show ?case by simp
qed simp_all


lemma run_results_of_func:
  assumes "run t m func c a e evs c'" and "\<And>x s. fst (func x s) \<noteq> t"
  shows "\<forall>x \<in> set (invocations evs). snd x \<noteq> t"
  using assms(1)
proof (induction rule: run.induct)
  case (matched a e a' e' c)
  with assms(2) [of a e] show ?case by simp
qed simp_all

lemma run_results:
  assumes "run t m func c a e evs c'"
  shows "map snd (invocations evs) = map (nth_result func a e) [0 ..< length (invocations evs)]"
  using assms
proof (induction rule: run.induct)
  case (retried a e r a' e' c evs c')
  let ?n = "length (invocations evs)"
  have "map (nth_result func a e) [0 ..< Suc ?n]
      = nth_result func a e 0 # map (nth_result func a e \<circ> Suc) [0 ..< ?n]"
    by (simp add: upt_rec [of 0 "Suc ?n"] map_Suc_upt [symmetric] del: upt_Suc)
  also have "nth_result func a e \<circ> Suc = nth_result func a' e'"
    using retried(1) by (auto simp: fun_eq_iff)
  finally show ?case using retried by simp
qed simp_all

lemma run_first_match:
  assumes "run t m func c a e evs c'" and "c < m \<or> \<not> c + 1 < m"
    and "nth_result func a e k = t" and "\<forall>j < k. nth_result func a e j \<noteq> t"
    and "k < max 1 (unat m - unat c)"
  shows "length (invocations evs) = Suc k \<and> snd (last (invocations evs)) = t"
  using assms
proof (induction arbitrary: k rule: run.induct)
  case (matched a e a' e' c)
  have "k = 0"
  proof (rule ccontr)
    assume "k \<noteq> 0"
    with matched(4) have "nth_result func a e 0 \<noteq> t" by blast
    with matched(1) show False by simp
  qed
  then show ?case by simp
next
  case (gave_up a e r a' e' c)
  have "unat m - unat c \<le> 1"
  proof (cases "c < m")
    case True
    then have "unat (c + 1) = Suc (unat c)" by (rule unat_inc_below)
    with gave_up(3) show ?thesis by (simp add: word_less_nat_alt)
  next
    case False
    then show ?thesis by (simp add: word_less_nat_alt)
  qed
  with gave_up(7) have "k = 0" by simp
  with gave_up(1,2,5) show ?case by simp
next
  case (retried a e r a' e' c evs c')
  from retried(3,6) have lt: "c < m" by blast
  then have suc: "unat (c + 1) = Suc (unat c)" by (rule unat_inc_below)
  from retried(3) have lt': "unat (c + 1) < unat m" by (simp add: word_less_nat_alt)
  have "k \<noteq> 0"
  proof
    assume "k = 0"
    with retried(1,7) have "r = t" by simp
    with retried(2) show False by simp
  qed
  then obtain k' where k: "k = Suc k'" by (cases k) auto
  from retried(1,7) k have 1: "nth_result func a' e' k' = t" by simp
  have 2: "\<forall>j < k'. nth_result func a' e' j \<noteq> t"
  proof (intro allI impI)
    fix j assume "j < k'"
    then have "Suc j < k" using k by simp
    with retried(8) have "nth_result func a e (Suc j) \<noteq> t" by blast
    with retried(1) show "nth_result func a' e' j \<noteq> t" by simp
  qed
  from retried(9) k suc lt' have 3: "k' < max 1 (unat m - unat (c + 1))" by simp
  from retried.IH [OF _ 1 2 3] retried(3)
  have ih: "length (invocations evs) = Suc k'" "snd (last (invocations evs)) = t" by simp_all
  from ih(1) have "invocations evs \<noteq> []" by auto
  with ih k show ?case by simp
qed

lemma run_success_end:
  assumes "run t m func c a e evs c'" and "snd (last (invocations evs)) = t"
  shows "\<exists>pre x. evs = pre @ [Invoke x t, Set_value t]"
    and "Suc (length (sleeps evs)) = length (invocations evs)"
  using assms
proof (induction rule: run.induct)
  case (matched a e a' e' c)
  {
    case 1
    have "[Invoke a t, Set_value t] = [] @ [Invoke a t, Set_value t]" by simp
    then show ?case by blast
  next
    case 2
    show ?case by simp
  }
next
  case (gave_up a e r a' e' c)
  {
    case 1
    with gave_up show ?case by simp
  next
    case 2
    with gave_up show ?case by simp
  }
next
  case (retried a e r a' e' c evs c')
  from run_invocations_first [OF retried(4)] have ne: "invocations evs \<noteq> []" by auto
  {
    case 1
    with ne have "snd (last (invocations evs)) = t" by simp
    from retried.IH(1) [OF this] obtain pre x where "evs = pre @ [Invoke x t, Set_value t]"
      by blast
    then have "Invoke a r # Sleep_for_getDelay c # evs
        = (Invoke a r # Sleep_for_getDelay c # pre) @ [Invoke x t, Set_value t]" by simp
    then show ?case by blast
  next
    case 2
    with ne have "snd (last (invocations evs)) = t" by simp
    from retried.IH(2) [OF this] show ?case by simp
  }
qed

lemma run_exhausted_end:
  assumes "run t m func c a e evs c'" and "snd (last (invocations evs)) \<noteq> t"
  shows "\<exists>pre x r d. evs = pre @ [Invoke x r, Sleep_for_getDelay d, Set_value r]"
    and "length (sleeps evs) = length (invocations evs)"
  using assms
proof (induction rule: run.induct)
  case (matched a e a' e' c)
  {
    case 1
    then show ?case by simp
  next
    case 2
    then show ?case by simp
  }
next
  case (gave_up a e r a' e' c)
  {
    case 1
    have "[Invoke a r, Sleep_for_getDelay c, Set_value r]
        = [] @ [Invoke a r, Sleep_for_getDelay c, Set_value r]" by simp
    then show ?case by blast
  next
    case 2
    show ?case by simp
  }
next
  case (retried a e r a' e' c evs c')
  from run_invocations_first [OF retried(4)] have ne: "invocations evs \<noteq> []" by auto
  {
    case 1
    with ne have "snd (last (invocations evs)) \<noteq> t" by simp
    from retried.IH(1) [OF this] obtain pre x r' d where
      "evs = pre @ [Invoke x r', Sleep_for_getDelay d, Set_value r']" by blast
    then have "Invoke a r # Sleep_for_getDelay c # evs
        = (Invoke a r # Sleep_for_getDelay c # pre)
          @ [Invoke x r', Sleep_for_getDelay d, Set_value r']" by simp
    then show ?case by blast
  next
    case 2
    with ne have "snd (last (invocations evs)) \<noteq> t" by simp
    from retried.IH(2) [OF this] show ?case by simp
  }
qed

section \<open>From the loop to the call\<close>

lemma work_events_steps:
  "work_events (map (\<lambda>ev. (Work_thread, Work ev)) evs @ rest) = evs @ work_events rest"
  by (induction evs) simp_all

lemma execute_steps:
  "steps (execute ex t func a e) =
     (Caller, Thread_start)
     # map (\<lambda>ev. (Work_thread, Work ev)) (work_events (steps (execute ex t func a e)))
     @ [(Caller, Join), (Caller, Return_futureRes)]"
  by (simp add: execute_def Let_def work_events_steps)

lemma execute_run:
  fixes t :: 'r and func :: "('a, 's, 'r) callable"
  shows "\<exists>c'. run t (maxRetries ex) func 0 a e (work_events (steps (execute ex t func a e))) c'
        \<and> c' = retryCount (work_thread_body t func (captured ex a e))
        \<and> work_events (steps (execute ex t func a e))
            = events (work_thread_body t func (captured ex a e))"
proof -
  let ?w0 = "(captured ex a e :: ('a, 's, 'r) work_thread)\<lparr>retryCount := 0\<rparr>"
  from retry_loop_run [of t func ?w0] obtain evs where
    "events (retry_loop t func ?w0) = events ?w0 @ evs"
    "run t (maxRetries (this ?w0)) func (retryCount ?w0) (args ?w0) (env ?w0) evs
       (retryCount (retry_loop t func ?w0))" by blast
  then show ?thesis
    by (simp add: execute_def Let_def work_thread_body_def captured_def work_events_steps)
qed

lemma execute_future:
  fixes t :: 'r and func :: "('a, 's, 'r) callable"
  shows "\<exists>v. futureRes (execute ex t func a e) = Some v
       \<and> last (work_events (steps (execute ex t func a e))) = Set_value v
       \<and> \<not> raised (execute ex t func a e)"
proof -
  let ?w0 = "(captured ex a e :: ('a, 's, 'r) work_thread)\<lparr>retryCount := 0\<rparr>"
  have "promiseRes ?w0 = None" by (simp add: captured_def)
  from retry_loop_promise [OF this, of t func] show ?thesis
    by (simp add: execute_def Let_def work_thread_body_def captured_def work_events_steps)
qed

lemma zero_start: "(0 :: 32 word) < m \<or> \<not> 0 + 1 < m"
  by (metis add_0 word_less_1 not_less_iff_gr_or_eq word_gt_0)

lemma retry_loop_total: "retry_loop_dom (t, func, w)"
proof (induction "budget w" arbitrary: w rule: less_induct)
  case less
  show ?case
  proof (rule retry_loop.domintros)
    fix x y
    assume "(x, y) = invoke func w"
      and "retryCount (increment (sleep_for_getDelay y))
           < maxRetries (this (increment (sleep_for_getDelay y)))"
    with budget_step [of func w x y]
    have "budget (increment (sleep_for_getDelay y)) < budget w" by simp
    then show "retry_loop_dom (t, func, increment (sleep_for_getDelay y))"
      by (rule less.hyps)
  qed
qed

lemma execute_delivers_last:
  fixes t :: 'r and func :: "('a, 's, 'r) callable"
  shows "futureRes (execute ex t func a e) = Some (snd (last (performed (execute ex t func a e))))
    \<and> \<not> raised (execute ex t func a e)
    \<and> set_values (work_events (steps (execute ex t func a e)))
        = [snd (last (performed (execute ex t func a e)))]
    \<and> last (work_events (steps (execute ex t func a e)))
        = Set_value (snd (last (performed (execute ex t func a e))))"
proof -
  from execute_run [of t ex func a e] obtain c' where
    r: "run t (maxRetries ex) func 0 a e (work_events (steps (execute ex t func a e))) c'"
    by blast
  from execute_future [of ex t func a e] obtain v where
    v: "futureRes (execute ex t func a e) = Some v"
      "last (work_events (steps (execute ex t func a e))) = Set_value v"
      "\<not> raised (execute ex t func a e)" by blast
  from run_last_event [OF r] v show ?thesis by (simp add: performed_def)
qed

text \<open>
  The number of invocations in a call: at least one, at most \<open>max 1 m\<close> for
  \<^verbatim>\<open>_maxRetries\<close> \<open>= m\<close>, and exactly \<open>max 1 m\<close> when the callable never returns the target.
\<close>

lemma invocations_bounds:
  fixes t :: 'r and func :: "('a, 's, 'r) callable"
  shows "1 \<le> length (performed (execute ex t func a e))
    \<and> length (performed (execute ex t func a e)) \<le> max 1 (unat (maxRetries ex))
    \<and> length (performed (execute ex t func a e)) \<le> unat (maxRetries ex) + 1"
proof -
  from execute_run [of t ex func a e] obtain c' where
    r: "run t (maxRetries ex) func 0 a e (work_events (steps (execute ex t func a e))) c'"
    by blast
  from run_invocations_first [OF r] have "1 \<le> length (performed (execute ex t func a e))"
    by (auto simp: performed_def)
  moreover from run_bound [OF r zero_start]
  have "length (performed (execute ex t func a e)) \<le> max 1 (unat (maxRetries ex))"
    by (simp add: performed_def)
  ultimately show ?thesis by auto
qed

lemma never_matching_invocations:
  fixes t :: 'r and func :: "('a, 's, 'r) callable"
  assumes "\<And>x s. fst (func x s) \<noteq> t"
  shows "length (performed (execute ex t func a e)) = max 1 (unat (maxRetries ex))"
proof -
  from execute_run [of t ex func a e] obtain c' where
    r: "run t (maxRetries ex) func 0 a e (work_events (steps (execute ex t func a e))) c'"
    by blast
  from run_never_matching [OF r zero_start run_results_of_func [OF r assms]]
  show ?thesis by (simp add: performed_def)
qed

section \<open>Steps of several calls\<close>

lemma small_step_this: "this (snd (small_step t func (pc, w))) = this w"
  by (cases pc)
    (auto simp: small_step_def sleep_for_getDelay_frame increment_frame set_value_frame
      dest: invoke_frame split: prod.splits)

lemma pool_step_object: "object (fst (pool_step i st)) = object (fst st)"
proof (cases st)
  case (Pair sh calls)
  show ?thesis
  proof (cases "i < length calls")
    case True
    let ?c = "calls ! i"
    let ?w = "(local ?c)\<lparr>this := object sh, env := outside sh\<rparr>"
    obtain pc' w' where s: "small_step (target ?c) (callee ?c) (at ?c, ?w) = (pc', w')"
      by (cases "small_step (target ?c) (callee ?c) (at ?c, ?w)")
    from small_step_this [of "target ?c" "callee ?c" "at ?c" ?w] s have "this w' = object sh"
      by simp
    with s True Pair show ?thesis by (simp add: pool_step_def Let_def)
  next
    case False
    with Pair show ?thesis by (simp add: pool_step_def)
  qed
qed

lemma interleave_object: "object (fst (interleave sched st)) = object (fst st)"
  unfolding interleave_def
  by (induction sched arbitrary: st) (simp_all add: pool_step_object)

lemma small_steps_reach_retry_loop:
  "\<exists>n. (small_step t func ^^ n) (At_call, w) = (Returned, retry_loop t func w)"
proof (induction w rule: retry_loop_induct [where func = func and t = t])
  case (pass w)
  obtain r w1 where inv: "invoke func w = (r, w1)" by (cases "invoke func w")
  note fr = invoke_frame [OF inv]
  let ?w3 = "increment (sleep_for_getDelay w1)"
  have w3: "this ?w3 = this w" "retryCount ?w3 = retryCount w + 1"
    by (simp_all add: increment_frame sleep_for_getDelay_frame fr)
  consider (match) "r = t" | (again) "r \<noteq> t" "retryCount w + 1 < maxRetries (this w)"
    | (give_up) "r \<noteq> t" "\<not> retryCount w + 1 < maxRetries (this w)" by blast
  then show ?case
  proof cases
    case match
    with inv have "(small_step t func ^^ 2) (At_call, w) = (Returned, set_value t w1)"
      by (simp add: numeral_2_eq_2 small_step_def)
    with inv match show ?thesis by (metis retry_loop_match)
  next
    case again
    from pass.IH [OF inv again] obtain n where
      n: "(small_step t func ^^ n) (At_call, ?w3) = (Returned, retry_loop t func ?w3)" by blast
    from inv again have "(small_step t func ^^ 4) (At_call, w) = (At_call, ?w3)"
      by (simp add: numeral_Bit0 small_step_def w3)
    with n have "(small_step t func ^^ (n + 4)) (At_call, w) = (Returned, retry_loop t func ?w3)"
      by (simp only: funpow_add o_apply)
    with inv again show ?thesis by (metis retry_loop_again)
  next
    case give_up
    from inv give_up
    have "(small_step t func ^^ 5) (At_call, w) = (Returned, set_value r ?w3)"
      by (simp add: eval_nat_numeral small_step_def w3)
    with inv give_up show ?thesis by (metis retry_loop_give_up)
  qed
qed

lemma small_steps_reach_work_thread_body:
  "\<exists>n. (small_step t func ^^ n) (At_start, w) = (Returned, work_thread_body t func w)"
proof -
  from small_steps_reach_retry_loop [of t func "w\<lparr>retryCount := 0\<rparr>"] obtain n where
    "(small_step t func ^^ n) (At_call, w\<lparr>retryCount := 0\<rparr>)
       = (Returned, work_thread_body t func w)" by (auto simp: work_thread_body_def)
  moreover have "small_step t func (At_start, w) = (At_call, w\<lparr>retryCount := 0\<rparr>)"
    by (simp add: small_step_def)
  ultimately have "(small_step t func ^^ (Suc n)) (At_start, w)
       = (Returned, work_thread_body t func w)"
    by (simp only: funpow_Suc_right o_apply)
  then show ?thesis by blast
qed


section \<open>What a call does\<close>

text \<open>
  The results of the invocations of a call are the results of successive invocations of the
  callable, starting from the arguments and the outside state of the call.
\<close>

lemma results_are_successive:
  fixes t :: 'r and func :: "('a, 's, 'r) callable"
  shows "map snd (performed (execute ex t func a e))
    = map (nth_result func a e) [0 ..< length (performed (execute ex t func a e))]"
proof -
  from execute_run [of t ex func a e] obtain c' where
    r: "run t (maxRetries ex) func 0 a e (work_events (steps (execute ex t func a e))) c'"
    by blast
  from run_results [OF r] show ?thesis by (simp add: performed_def)
qed

text \<open>
  A callable that returns the target for the first time on invocation \<open>k + 1\<close>, with
  \<open>k + 1 \<le> max 1 m\<close> for \<^verbatim>\<open>_maxRetries\<close> \<open>= m\<close>, is invoked \<open>k + 1\<close> times; the target is
  delivered; the work thread ends with the matching invocation followed at once by
  \<^verbatim>\<open>set_value\<close>; and there are \<open>k\<close> sleeps, one after each earlier invocation.
\<close>

lemma first_match_within_budget:
  fixes t :: 'r and func :: "('a, 's, 'r) callable"
  assumes "nth_result func a e k = t" and "\<forall>j < k. nth_result func a e j \<noteq> t"
    and "k < max 1 (unat (maxRetries ex))"
  shows "length (performed (execute ex t func a e)) = Suc k"
    and "futureRes (execute ex t func a e) = Some t"
    and "\<exists>pre x. work_events (steps (execute ex t func a e)) = pre @ [Invoke x t, Set_value t]"
    and "length (sleeps (work_events (steps (execute ex t func a e)))) = k"
proof -
  from execute_run [of t ex func a e] obtain c' where
    r: "run t (maxRetries ex) func 0 a e (work_events (steps (execute ex t func a e))) c'"
    by blast
  from assms(3) have "k < max 1 (unat (maxRetries ex) - unat (0 :: 32 word))" by simp
  from run_first_match [OF r zero_start assms(1,2) this]
  have m: "length (performed (execute ex t func a e)) = Suc k"
    "snd (last (performed (execute ex t func a e))) = t"
    by (simp_all add: performed_def)
  from m(2) have l: "snd (last (invocations (work_events (steps (execute ex t func a e))))) = t"
    by (simp add: performed_def)
  show "length (performed (execute ex t func a e)) = Suc k" by (rule m(1))
  show "futureRes (execute ex t func a e) = Some t"
    using execute_delivers_last [of ex t func a e] m(2) by simp
  show "\<exists>pre x. work_events (steps (execute ex t func a e)) = pre @ [Invoke x t, Set_value t]"
    by (rule run_success_end(1) [OF r l])
  show "length (sleeps (work_events (steps (execute ex t func a e)))) = k"
    using run_success_end(2) [OF r l] m(1) by (simp add: performed_def)
qed

text \<open>
  A call whose last invocation does not return the target ends with that invocation, a
  sleep, and \<^verbatim>\<open>set_value\<close>; it sleeps as often as it invokes.
\<close>

lemma exhaustion_ends_with_sleep:
  fixes t :: 'r and func :: "('a, 's, 'r) callable"
  assumes "snd (last (performed (execute ex t func a e))) \<noteq> t"
  shows "\<exists>pre x r d. work_events (steps (execute ex t func a e))
            = pre @ [Invoke x r, Sleep_for_getDelay d, Set_value r]"
    and "length (sleeps (work_events (steps (execute ex t func a e))))
            = length (performed (execute ex t func a e))"
proof -
  from execute_run [of t ex func a e] obtain c' where
    r: "run t (maxRetries ex) func 0 a e (work_events (steps (execute ex t func a e))) c'"
    by blast
  from assms
  have l: "snd (last (invocations (work_events (steps (execute ex t func a e))))) \<noteq> t"
    by (simp add: performed_def)
  show "\<exists>pre x r d. work_events (steps (execute ex t func a e))
            = pre @ [Invoke x r, Sleep_for_getDelay d, Set_value r]"
    by (rule run_exhausted_end(1) [OF r l])
  show "length (sleeps (work_events (steps (execute ex t func a e))))
            = length (performed (execute ex t func a e))"
    using run_exhausted_end(2) [OF r l] by (simp add: performed_def)
qed

section \<open>The number of invocations\<close>

text \<open>
  Claim C1 says that a callable that never returns the target is invoked \<open>m + 1\<close> times for
  \<^verbatim>\<open>_maxRetries\<close> \<open>= m\<close>. The loop counts a retry and sleeps for it before it tests the
  counter, so the last retry is waited for and never made: with \<^verbatim>\<open>_maxRetries\<close> 3 and a
  callable that always returns 1 for the target 5 there are three invocations, and with
  \<^verbatim>\<open>_maxRetries\<close> 1 there is one invocation and no retry.
\<close>

theorem never_matching_three_invocations:
  "length (performed (execute (C_Tor 3 100 two) (5 :: int) (always 1) () ())) = 3
   \<and> length (performed (execute (C_Tor 1 100 two) (5 :: int) (always 1) () ())) = 1"
  by code_simp

section \<open>When the caller gets the future\<close>

text \<open>
  Claim C2 says that the caller has the future before the retries and their sleeps are over.
  \<^verbatim>\<open>operator()\<close> joins the work thread before it returns: with \<^verbatim>\<open>_maxRetries\<close> 2, a base
  delay of 100 ms and a callable that always returns 1 for the target 5, both invocations
  and both sleeps come before the return of \<^verbatim>\<open>join\<close>, and the future is returned last.
\<close>

theorem future_returned_after_the_sleeps:
  "steps (execute (C_Tor 2 100 two) (5 :: int) (always 1) () ()) =
     [(Caller, Thread_start),
      (Work_thread, Work (Invoke () 1)), (Work_thread, Work (Sleep_for_getDelay 0)),
      (Work_thread, Work (Invoke () 1)), (Work_thread, Work (Sleep_for_getDelay 1)),
      (Work_thread, Work (Set_value 1)),
      (Caller, Join), (Caller, Return_futureRes)]"
  by code_simp

section \<open>Where the sleeps are\<close>

text \<open>
  Claim C3 says that no sleep follows the last invocation of a run that ends by exhaustion,
  and that there is no sleep once the counter has reached \<^verbatim>\<open>_maxRetries\<close>. With
  \<^verbatim>\<open>_maxRetries\<close> 1 and a callable that always returns 1 for the target 5, the only invocation
  is followed by a sleep, and then the value is set; with \<^verbatim>\<open>_maxRetries\<close> 0 the same sleep
  happens at counter 0.
\<close>

theorem sleep_after_last_invocation:
  "work_events (steps (execute (C_Tor 1 100 two) (5 :: int) (always 1) () ()))
     = [Invoke () 1, Sleep_for_getDelay 0, Set_value 1]
   \<and> work_events (steps (execute (C_Tor 0 100 two) (5 :: int) (always 1) () ()))
     = [Invoke () 1, Sleep_for_getDelay 0, Set_value 1]"
  by code_simp

section \<open>The value delivered\<close>

text \<open>
  Claim C4. When no invocation of a call returns the target, the future holds a value (no
  error was raised on the promise), and the value is the result of the last invocation
  performed, which is not the target.
\<close>

theorem exhaustion_delivers_last_result:
  fixes t :: 'r and func :: "('a, 's, 'r) callable"
  assumes "\<forall>x \<in> set (performed (execute ex t func a e)). snd x \<noteq> t"
  shows "futureRes (execute ex t func a e) = Some (snd (last (performed (execute ex t func a e))))
    \<and> \<not> raised (execute ex t func a e)
    \<and> snd (last (performed (execute ex t func a e))) \<noteq> t"
proof -
  from invocations_bounds [of ex t func a e] have "performed (execute ex t func a e) \<noteq> []"
    by auto
  then have "last (performed (execute ex t func a e)) \<in> set (performed (execute ex t func a e))"
    by (rule last_in_set)
  with assms have "snd (last (performed (execute ex t func a e))) \<noteq> t" by blast
  with execute_delivers_last [of ex t func a e] show ?thesis by simp
qed

text \<open>
  A run of three invocations with the results 1, 2 and 3 and the target 5: the value
  delivered is 3, the last result, and not 1, the first.
\<close>

theorem exhaustion_delivers_last_result_witness:
  "list_all (\<lambda>x. snd x \<noteq> 5)
     (performed (execute (C_Tor 3 100 two) (5 :: int) (scripted [1, 2, 3] 0) () 0))
   \<and> futureRes (execute (C_Tor 3 100 two) (5 :: int) (scripted [1, 2, 3] 0) () 0) = Some 3
   \<and> snd (hd (performed (execute (C_Tor 3 100 two) (5 :: int) (scripted [1, 2, 3] 0) () 0))) = 1
   \<and> \<not> raised (execute (C_Tor 3 100 two) (5 :: int) (scripted [1, 2, 3] 0) () 0)"
proof -
  let ?X = "execute (C_Tor 3 100 two) (5 :: int) (scripted [1, 2, 3] 0) () 0"
  have p: "performed ?X = [((), 1), ((), 2), ((), 3)]" by code_simp
  then have h: "\<forall>x \<in> set (performed ?X). snd x \<noteq> 5" by simp
  from exhaustion_delivers_last_result [OF h] show ?thesis by (simp add: p)
qed

section \<open>A match before the budget is used up\<close>

text \<open>
  Claim C6 says that a callable that returns the target for the first time on invocation
  \<open>k \<le> m + 1\<close> is invoked \<open>k\<close> times and that the target is delivered. With \<^verbatim>\<open>_maxRetries\<close>
  1 and a callable that returns 1 and then 5 for the target 5 (so \<open>k = 2 = m + 1\<close>), the
  callable is invoked once and the value delivered is 1.
\<close>

theorem match_on_last_budgeted_invocation_not_reached:
  "performed (execute (C_Tor 1 100 two) (5 :: int) (scripted [1, 5] 0) () 0) = [((), 1)]
   \<and> futureRes (execute (C_Tor 1 100 two) (5 :: int) (scripted [1, 5] 0) () 0) = Some 1"
  by code_simp

section \<open>The arguments each invocation receives\<close>




section \<open>The promise is set once\<close>

text \<open>
  Claim C8. On the path that ends with a matching result and on the path that ends by
  exhaustion, \<^verbatim>\<open>set_value\<close> is called exactly once, as the last thing the work thread does;
  no \<^verbatim>\<open>std::future_error\<close> is raised; and the value set, which is the value the future
  holds, is the result of the last invocation (the matching result, or the last result
  that did not match).
\<close>

theorem promise_set_exactly_once:
  fixes t :: 'r and func :: "('a, 's, 'r) callable"
  shows "set_values (work_events (steps (execute ex t func a e)))
        = [snd (last (performed (execute ex t func a e)))]
    \<and> last (work_events (steps (execute ex t func a e)))
        = Set_value (snd (last (performed (execute ex t func a e))))
    \<and> futureRes (execute ex t func a e) = Some (snd (last (performed (execute ex t func a e))))
    \<and> \<not> raised (execute ex t func a e)"
  using execute_delivers_last [of ex t func a e] by simp

theorem promise_set_exactly_once_witness:
  "set_values (work_events (steps
      (execute (C_Tor 3 100 two) (5 :: int) (scripted [1, 2, 5] 0) () 0))) = [5]
   \<and> futureRes (execute (C_Tor 3 100 two) (5 :: int) (scripted [1, 2, 5] 0) () 0) = Some 5"
proof -
  let ?X = "execute (C_Tor 3 100 two) (5 :: int) (scripted [1, 2, 5] 0) () 0"
  have p: "performed ?X = [((), 1), ((), 2), ((), 5)]" by code_simp
  from promise_set_exactly_once [of "C_Tor 3 100 two" "5 :: int" "scripted [1, 2, 5] 0" "()" 0]
  show ?thesis by (simp add: p)
qed

section \<open>The policy is only read\<close>

text \<open>
  Claim C9. The retry policy is set by the constructor and a call of \<^verbatim>\<open>operator()\<close> leaves
  the three fields \<^verbatim>\<open>_maxRetries\<close>, \<^verbatim>\<open>_baseDelay\<close> and \<^verbatim>\<open>_backoffFactor\<close> as they were:
  the executor object after the call is the object the constructor built, for every target,
  callable, argument and state of the world. The same holds for calls on one executor
  whose work threads run at the same time: whatever the calls are, wherever each of them
  stands, and in whatever order they take their steps, the executor object stays the object
  the constructor built.
\<close>

theorem policy_unchanged_by_execute:
  "executor (execute (C_Tor m d f) t func a e) = C_Tor m d f
   \<and> maxRetries (executor (execute (C_Tor m d f) t func a e)) = m
   \<and> baseDelay (executor (execute (C_Tor m d f) t func a e)) = d
   \<and> backoffFactor (executor (execute (C_Tor m d f) t func a e)) = f
   \<and> object (fst (interleave sched (\<lparr>object = C_Tor m d f, outside = e\<rparr>, calls)))
       = C_Tor m d f"
proof -
  have "executor (execute (C_Tor m d f) t func a e) = C_Tor m d f"
    by (simp add: execute_def Let_def work_thread_body_def retry_loop_this captured_def)
  moreover have "object (fst (interleave sched (\<lparr>object = C_Tor m d f, outside = e\<rparr>, calls)))
       = C_Tor m d f"
    by (simp add: interleave_object)
  ultimately show ?thesis by (simp add: C_Tor_def)
qed

section \<open>The loop ends\<close>

text \<open>
  Claim C10. For every policy and every callable that returns, the retry loop in the work
  thread ends: started from a counter of 0 it is within the domain on which the recursion is
  well-founded; the callable is invoked at least once and at most \<open>max 1 m\<close> times for
  \<^verbatim>\<open>_maxRetries\<close> \<open>= m\<close>; the counter ends at the number of invocations whose result was not
  the target, having taken the values 0, 1, 2, ... one after the other (they are the values
  passed to \<^verbatim>\<open>getDelay\<close>); and when the loop is left, the last result is the target or the
  counter is not below \<^verbatim>\<open>_maxRetries\<close>.
\<close>

theorem retry_loop_terminates_within_bound:
  fixes t :: 'r and func :: "('a, 's, 'r) callable"
  shows "retry_loop_dom (t, func, (captured ex a e)\<lparr>retryCount := 0\<rparr>)
    \<and> 1 \<le> length (invocations (events (work_thread_body t func (captured ex a e))))
    \<and> length (invocations (events (work_thread_body t func (captured ex a e))))
        \<le> max 1 (unat (maxRetries ex))
    \<and> unat (retryCount (work_thread_body t func (captured ex a e)))
        = length (filter (\<lambda>x. snd x \<noteq> t)
            (invocations (events (work_thread_body t func (captured ex a e)))))
    \<and> sleeps (events (work_thread_body t func (captured ex a e)))
        = map of_nat [0 ..< unat (retryCount (work_thread_body t func (captured ex a e)))]
    \<and> (snd (last (invocations (events (work_thread_body t func (captured ex a e))))) = t
        \<or> \<not> retryCount (work_thread_body t func (captured ex a e)) < maxRetries ex)"
proof -
  let ?W = "work_thread_body t func (captured ex a e)"
  from execute_run [of t ex func a e] have
    r: "run t (maxRetries ex) func 0 a e (events ?W) (retryCount ?W)"
    by auto
  have "(0 :: 32 word) \<noteq> - 1" by simp
  from run_counter [OF r zero_start this] run_bound [OF r zero_start] run_stop [OF r]
    run_invocations_first [OF r] retry_loop_total
  show ?thesis by auto
qed

theorem retry_loop_terminates_within_bound_witness:
  "length (invocations (events (work_thread_body (5 :: int) (scripted [1, 2, 5] 0)
      (captured (C_Tor 3 100 two) () 0)))) = 3
   \<and> unat (retryCount (work_thread_body (5 :: int) (scripted [1, 2, 5] 0)
      (captured (C_Tor 3 100 two) () 0))) = 2
   \<and> sleeps (events (work_thread_body (5 :: int) (scripted [1, 2, 5] 0)
      (captured (C_Tor 3 100 two) () 0))) = [0, 1]"
proof -
  let ?W = "work_thread_body (5 :: int) (scripted [1, 2, 5] 0) (captured (C_Tor 3 100 two) () 0)"
  have ev: "events ?W = [Invoke () 1, Sleep_for_getDelay 0, Invoke () 2, Sleep_for_getDelay 1,
      Invoke () 5, Set_value 5]" by code_simp
  from retry_loop_terminates_within_bound [of "5 :: int" "scripted [1, 2, 5] 0" "C_Tor 3 100 two" "()" 0]
  have "unat (retryCount ?W) = length (filter (\<lambda>x. snd x \<noteq> 5) (invocations (events ?W)))"
    by blast
  then show ?thesis by (simp add: ev)
qed

end
